theory Spec2Isabelle
  imports Main
begin

section \<open>The arena and its block headers\<close>

text \<open>
  The program keeps one static byte array \<^verbatim>\<open>memory[MEMORY_SIZE]\<close> and a global
  \<^verbatim>\<open>freeList\<close>. Every pointer it handles points into that array, so a pointer is
  modelled as \<open>Some\<close> of a byte offset from \<^verbatim>\<open>&memory[0]\<close>, and \<^verbatim>\<open>NULL\<close> as \<open>None\<close>.
  The array is only ever read and written through \<^verbatim>\<open>Block*\<close>, so the store maps an
  offset to the header found there. Headers at different offsets are separate cells of the
  store: this is exact as long as the headers in use do not overlap, which the coverage
  invariant below guarantees for the blocks on the list. For \<^verbatim>\<open>deallocate\<close> this means that
  the store is exact when the pointer is \<^verbatim>\<open>NULL\<close> or the payload address of a block on the
  list. With any other pointer the program writes four bytes that may belong to a header on
  the list, while the store sets the flag of a cell of its own: such calls are outside the
  contract of the program, and each theorem of the last section about a call of
  \<^verbatim>\<open>deallocate\<close> with a pointer other than \<^verbatim>\<open>NULL\<close> assumes that the pointer is the payload
  address of a block on the list.

  \<^verbatim>\<open>sizeof(Block)\<close> depends on the platform (16 with 4-byte \<^verbatim>\<open>int\<close> and 8-byte
  pointers, 12 with 4-byte pointers); it is the parameter \<open>H\<close> of every operation.
\<close>

definition MEMORY_SIZE :: int where
  "MEMORY_SIZE = 102400"

type_synonym ptr = "int option"

record Block =
  size_f :: int
  free_f :: int
  next_f :: ptr

type_synonym mem = "int \<Rightarrow> Block"

record allocator =
  memory :: mem
  freeList :: ptr

text \<open>
  Static storage is zero-initialised: before the first call every header reads as zeros
  and \<^verbatim>\<open>freeList\<close> is \<^verbatim>\<open>NULL\<close>.
\<close>

definition fresh :: allocator where
  "fresh = \<lparr>memory = (\<lambda>_. \<lparr>size_f = 0, free_f = 0, next_f = None\<rparr>), freeList = None\<rparr>"

text \<open>
  The \<^verbatim>\<open>size\<close> field is a 32-bit \<^verbatim>\<open>int\<close>. Where the program stores the result of
  \<^verbatim>\<open>size_t\<close> arithmetic into it, the value is reduced modulo \<open>2^32\<close> into the signed range.
\<close>

definition int32 :: "int \<Rightarrow> int" where
  "int32 x = (x + 2 ^ 31) mod 2 ^ 32 - 2 ^ 31"

text \<open>Assignments to a single field of the header at offset \<open>a\<close>.\<close>

definition set_size :: "mem \<Rightarrow> int \<Rightarrow> int \<Rightarrow> mem" where
  "set_size m a v = m(a := (m a)\<lparr>size_f := v\<rparr>)"

definition set_free :: "mem \<Rightarrow> int \<Rightarrow> int \<Rightarrow> mem" where
  "set_free m a v = m(a := (m a)\<lparr>free_f := v\<rparr>)"

definition set_next :: "mem \<Rightarrow> int \<Rightarrow> ptr \<Rightarrow> mem" where
  "set_next m a v = m(a := (m a)\<lparr>next_f := v\<rparr>)"

section \<open>The operations\<close>

definition initialize :: "int \<Rightarrow> allocator \<Rightarrow> allocator" where
  "initialize H s =
     (let m1 = set_size (memory s) 0 (int32 (MEMORY_SIZE - H));
          m2 = set_free m1 0 1;
          m3 = set_next m2 0 None
      in \<lparr>memory = m3, freeList = Some 0\<rparr>)"

definition splitBlock :: "int \<Rightarrow> mem \<Rightarrow> int \<Rightarrow> int \<Rightarrow> mem" where
  "splitBlock H m fittingBlock sz =
     (let newBlock = fittingBlock + H + sz;
          m1 = set_size m newBlock (int32 (size_f (m fittingBlock) - sz - H));
          m2 = set_free m1 newBlock 1;
          m3 = set_next m2 newBlock (next_f (m2 fittingBlock));
          m4 = set_size m3 fittingBlock sz;
          m5 = set_free m4 fittingBlock 0
      in set_next m5 fittingBlock (Some newBlock))"

text \<open>
  What \<^verbatim>\<open>allocate\<close> does with the block \<open>c\<close> it has selected: split it when it is
  larger than the request by more than one header, else only clear its flag. \<open>sz\<close> is
  at most \<open>MEMORY_SIZE\<close> here, so \<^verbatim>\<open>size + (int)sizeof(Block)\<close> does not overflow.
\<close>

definition take_block :: "int \<Rightarrow> mem \<Rightarrow> int \<Rightarrow> int \<Rightarrow> mem" where
  "take_block H m c sz =
     (if size_f (m c) > sz + H then splitBlock H m c sz else set_free m c 0)"

text \<open>The test of the first-fit search on the block at \<open>c\<close>.\<close>

definition fits :: "mem \<Rightarrow> int \<Rightarrow> int \<Rightarrow> bool" where
  "fits m sz c = (free_f (m c) \<noteq> 0 \<and> size_f (m c) \<ge> sz)"

text \<open>
  The search loop of \<^verbatim>\<open>allocate\<close>. It returns the store and the pointer handed to the
  caller; \<open>None\<close> as the result of the whole function means that the loop does not return.
\<close>

partial_function (option) allocate_loop :: "int \<Rightarrow> mem \<Rightarrow> ptr \<Rightarrow> int \<Rightarrow> (mem \<times> ptr) option" where
  "allocate_loop H m current sz =
     (case current of
        None \<Rightarrow> Some (m, None)
      | Some c \<Rightarrow>
          if fits m sz c then Some (take_block H m c sz, Some (c + H))
          else allocate_loop H m (next_f (m c)) sz)"

definition lazy_init :: "int \<Rightarrow> allocator \<Rightarrow> allocator" where
  "lazy_init H s = (if freeList s = None then initialize H s else s)"

definition allocate :: "int \<Rightarrow> allocator \<Rightarrow> int \<Rightarrow> (allocator \<times> ptr) option" where
  "allocate H s sz =
     (if sz \<le> 0 \<or> sz > MEMORY_SIZE then Some (s, None)
      else
        let s1 = lazy_init H s
        in case allocate_loop H (memory s1) (freeList s1) sz of
             None \<Rightarrow> None
           | Some (m, r) \<Rightarrow> Some (s1\<lparr>memory := m\<rparr>, r))"

text \<open>
  One merge in \<^verbatim>\<open>mergeFreeBlocks\<close>: the block at \<open>c\<close> absorbs its successor \<open>n\<close>. The sum
  is computed in \<^verbatim>\<open>size_t\<close> and stored into an \<^verbatim>\<open>int\<close>.
\<close>

definition merge_step :: "int \<Rightarrow> mem \<Rightarrow> int \<Rightarrow> int \<Rightarrow> mem" where
  "merge_step H m c n =
     (let m1 = set_size m c (int32 (size_f (m c) + (H + size_f (m n))))
      in set_next m1 c (next_f (m1 n)))"

text \<open>The loop of \<^verbatim>\<open>mergeFreeBlocks\<close>, started at \<^verbatim>\<open>freeList\<close>.\<close>

partial_function (option) merge_loop :: "int \<Rightarrow> mem \<Rightarrow> ptr \<Rightarrow> mem option" where
  "merge_loop H m current =
     (case current of
        None \<Rightarrow> Some m
      | Some c \<Rightarrow>
          (case next_f (m c) of
             None \<Rightarrow> Some m
           | Some n \<Rightarrow>
               if free_f (m c) \<noteq> 0 \<and> free_f (m n) \<noteq> 0 then merge_loop H (merge_step H m c n) (Some c)
               else merge_loop H m (Some n)))"

definition mergeFreeBlocks :: "int \<Rightarrow> allocator \<Rightarrow> allocator option" where
  "mergeFreeBlocks H s =
     (case merge_loop H (memory s) (freeList s) of
        None \<Rightarrow> None
      | Some m \<Rightarrow> Some (s\<lparr>memory := m\<rparr>))"

text \<open>
  \<^verbatim>\<open>deallocate\<close> does not check its argument. The definition follows the program for
  \<^verbatim>\<open>NULL\<close> and for the payload address of a block on the list (see \<open>in_contract\<close> below).
\<close>

definition deallocate :: "int \<Rightarrow> allocator \<Rightarrow> ptr \<Rightarrow> allocator option" where
  "deallocate H s p =
     (case p of
        None \<Rightarrow> Some s
      | Some q \<Rightarrow> mergeFreeBlocks H (s\<lparr>memory := set_free (memory s) (q - H) 1\<rparr>))"

section \<open>Lists of blocks\<close>

text \<open>
  \<open>path m p as\<close>: following \<^verbatim>\<open>next\<close> from \<open>p\<close> visits exactly the headers at the
  offsets \<open>as\<close>, in this order, and then reaches \<^verbatim>\<open>NULL\<close>. Such a list is finite and
  has no cycle.
\<close>

primrec path :: "mem \<Rightarrow> ptr \<Rightarrow> int list \<Rightarrow> bool" where
  "path m p [] = (p = None)"
| "path m p (a # as) = (p = Some a \<and> path m (next_f (m a)) as)"

text \<open>No two neighbours on the list are both free.\<close>

fun no_adjacent_free :: "mem \<Rightarrow> int list \<Rightarrow> bool" where
  "no_adjacent_free m (a # b # as) =
     (\<not> (free_f (m a) \<noteq> 0 \<and> free_f (m b) \<noteq> 0) \<and> no_adjacent_free m (b # as))"
| "no_adjacent_free m as = True"

text \<open>
  The effect of the merge loop on a list of blocks: the store it leaves and the blocks that
  stay on the list.
\<close>

fun merge_list :: "int \<Rightarrow> mem \<Rightarrow> int list \<Rightarrow> mem \<times> int list" where
  "merge_list H m (c # n # as) =
     (if free_f (m c) \<noteq> 0 \<and> free_f (m n) \<noteq> 0 then merge_list H (merge_step H m c n) (c # as)
      else (fst (merge_list H m (n # as)), c # snd (merge_list H m (n # as))))"
| "merge_list H m as = (m, as)"

text \<open>
  \<open>covers H m p off as\<close>: the blocks \<open>as\<close> are the list that starts at \<open>p\<close>, the first
  header lies at offset \<open>off\<close>, every block takes \<open>H\<close> bytes of header and \<^verbatim>\<open>size\<close> bytes
  of payload, every header lies exactly where the block before it ends, and the last block
  ends at \<open>MEMORY_SIZE\<close>. With \<open>off = 0\<close> the blocks partition the arena.
\<close>

primrec covers :: "int \<Rightarrow> mem \<Rightarrow> ptr \<Rightarrow> int \<Rightarrow> int list \<Rightarrow> bool" where
  "covers H m p off [] = (p = None \<and> off = MEMORY_SIZE)"
| "covers H m p off (a # as) =
     (p = Some a \<and> a = off \<and> 0 \<le> size_f (m a) \<and>
      covers H m (next_f (m a)) (off + H + size_f (m a)) as)"

text \<open>
  The contract of \<^verbatim>\<open>deallocate\<close>: its argument is \<^verbatim>\<open>NULL\<close>, or it is the payload address of
  a block that is on the list when the call is made. \<open>on_list\<close> walks the list as the loops of
  the program do; its result is \<open>None\<close> when the list does not end.
\<close>

partial_function (option) on_list :: "mem \<Rightarrow> ptr \<Rightarrow> int \<Rightarrow> bool option" where
  "on_list m current a =
     (case current of
        None \<Rightarrow> Some False
      | Some c \<Rightarrow> if c = a then Some True else on_list m (next_f (m c)) a)"

definition in_contract :: "int \<Rightarrow> allocator \<Rightarrow> ptr \<Rightarrow> bool" where
  "in_contract H s p =
     (case p of
        None \<Rightarrow> True
      | Some q \<Rightarrow> on_list (memory s) (freeList s) (q - H) = Some True)"

text \<open>
  A sequence of calls, run from a given state. The result is \<open>None\<close> when one of the calls
  does not return.
\<close>

datatype call = Allocate int | Deallocate ptr

fun run :: "int \<Rightarrow> allocator \<Rightarrow> call list \<Rightarrow> allocator option" where
  "run H s [] = Some s"
| "run H s (Allocate sz # cs) =
     (case allocate H s sz of None \<Rightarrow> None | Some (s', r) \<Rightarrow> run H s' cs)"
| "run H s (Deallocate p # cs) =
     (case deallocate H s p of None \<Rightarrow> None | Some s' \<Rightarrow> run H s' cs)"

text \<open>
  A sequence of calls keeps the contract when the argument of every call of
  \<^verbatim>\<open>deallocate\<close> in it is within the contract in the state in which that call is made.
  Nothing is required of the sizes passed to \<^verbatim>\<open>allocate\<close>, and nothing is assumed about
  whether the calls return.
\<close>

fun calls_in_contract :: "int \<Rightarrow> allocator \<Rightarrow> call list \<Rightarrow> bool" where
  "calls_in_contract H s [] = True"
| "calls_in_contract H s (Allocate sz # cs) =
     (case allocate H s sz of None \<Rightarrow> True | Some (s', r) \<Rightarrow> calls_in_contract H s' cs)"
| "calls_in_contract H s (Deallocate p # cs) =
     (in_contract H s p \<and>
      (case deallocate H s p of None \<Rightarrow> True | Some s' \<Rightarrow> calls_in_contract H s' cs))"

text \<open>
  Two states used as concrete inputs, for \<open>H = 16\<close>. The first is the arena of
  \<^verbatim>\<open>main\<close> after its three allocations and the release of the second one, when
  \<^verbatim>\<open>printf\<close> is called for the second time. The second
  covers the arena with three blocks of which the last two are free; no sequence of calls
  leads to a list with two free neighbours, it stands for the lists that have them.
\<close>

definition example_state :: allocator where
  "example_state =
     \<lparr>memory = (memory fresh)
        (0 := \<lparr>size_f = 128, free_f = 0, next_f = Some 144\<rparr>,
         144 := \<lparr>size_f = 1024, free_f = 1, next_f = Some 1184\<rparr>,
         1184 := \<lparr>size_f = 4096, free_f = 0, next_f = Some 5296\<rparr>,
         5296 := \<lparr>size_f = 97088, free_f = 1, next_f = None\<rparr>),
      freeList = Some 0\<rparr>"

definition adjacent_free_state :: allocator where
  "adjacent_free_state =
     \<lparr>memory = (memory fresh)
        (0 := \<lparr>size_f = 128, free_f = 0, next_f = Some 144\<rparr>,
         144 := \<lparr>size_f = 1024, free_f = 1, next_f = Some 1184\<rparr>,
         1184 := \<lparr>size_f = 101200, free_f = 1, next_f = None\<rparr>),
      freeList = Some 0\<rparr>"

section \<open>Basic facts\<close>

lemma set_size_apply: "set_size m a v x = (if x = a then (m a)\<lparr>size_f := v\<rparr> else m x)"
  by (simp add: set_size_def)

lemma set_free_apply: "set_free m a v x = (if x = a then (m a)\<lparr>free_f := v\<rparr> else m x)"
  by (simp add: set_free_def)

lemma set_next_apply: "set_next m a v x = (if x = a then (m a)\<lparr>next_f := v\<rparr> else m x)"
  by (simp add: set_next_def)

lemmas store_simps = set_size_apply set_free_apply set_next_apply

lemma find_SomeD: "find P xs = Some x \<Longrightarrow> x \<in> set xs \<and> P x"
  by (induction xs) (auto split: if_splits)

lemma find_first:
  "find P xs = Some a \<Longrightarrow> \<exists>pre post. xs = pre @ a # post \<and> P a \<and> (\<forall>x \<in> set pre. \<not> P x)"
proof (induction xs)
  case Nil
  then show ?case by simp
next
  case (Cons x xs)
  show ?case
  proof (cases "P x")
    case True
    with Cons.prems have "x # xs = [] @ a # xs \<and> P a \<and> (\<forall>y \<in> set []. \<not> P y)" by simp
    then show ?thesis by blast
  next
    case False
    with Cons obtain pre post where "xs = pre @ a # post" "P a" "\<forall>y \<in> set pre. \<not> P y"
      by auto
    with False have "x # xs = (x # pre) @ a # post \<and> P a \<and> (\<forall>y \<in> set (x # pre). \<not> P y)"
      by simp
    then show ?thesis by blast
  qed
qed

lemma int32_id: "- (2 ^ 31) \<le> x \<Longrightarrow> x < 2 ^ 31 \<Longrightarrow> int32 x = x"
  by (simp add: int32_def)

lemma path_unique: "path m p as \<Longrightarrow> path m p bs \<Longrightarrow> as = bs"
proof (induction as arbitrary: p bs)
  case Nil
  then show ?case by (cases bs) auto
next
  case (Cons a as)
  then show ?case by (cases bs) auto
qed

lemma path_suffix: "path m p (as @ b # bs) \<Longrightarrow> path m (Some b) (b # bs)"
  by (induction as arbitrary: p) auto

lemma path_notin: "path m (Some a) (a # as) \<Longrightarrow> a \<notin> set as"
proof
  assume p: "path m (Some a) (a # as)" and "a \<in> set as"
  then obtain xs ys where as: "as = xs @ a # ys" by (auto simp: in_set_conv_decomp)
  with p have "path m (next_f (m a)) (xs @ a # ys)" by simp
  then have "path m (Some a) (a # ys)" by (rule path_suffix)
  with p have "a # as = a # ys" by (rule path_unique)
  with as show False by simp
qed

lemma path_distinct: "path m p as \<Longrightarrow> distinct as"
proof (induction as arbitrary: p)
  case Nil
  show ?case by simp
next
  case (Cons a as)
  then have "a \<notin> set as" using path_notin[of m a as] by simp
  with Cons show ?case by auto
qed

lemma path_cong:
  "(\<And>x. x \<in> set as \<Longrightarrow> next_f (m' x) = next_f (m x)) \<Longrightarrow> path m' p as = path m p as"
  by (induction as arbitrary: p) auto

lemma path_set_free: "path (set_free m a v) p as = path m p as"
  by (rule path_cong) (simp add: set_free_apply)

lemma on_list_path: "path m p as \<Longrightarrow> on_list m p a = Some (a \<in> set as)"
proof (induction as arbitrary: p)
  case Nil
  then show ?case by (subst on_list.simps) simp
next
  case (Cons b bs)
  then have p: "p = Some b" and rest: "path m (next_f (m b)) bs" by simp_all
  show ?case unfolding p using Cons.IH[OF rest]
    by (subst on_list.simps) auto
qed

lemma in_contract_path:
  "path (memory s) (freeList s) as \<Longrightarrow>
   in_contract H s p = (case p of None \<Rightarrow> True | Some q \<Rightarrow> q - H \<in> set as)"
  by (simp add: in_contract_def on_list_path split: option.splits)

subsection \<open>The search loop on a list\<close>

lemma allocate_loop_path:
  "path m p as \<Longrightarrow>
   allocate_loop H m p sz =
     Some (case find (fits m sz) as of
             None \<Rightarrow> (m, None)
           | Some a \<Rightarrow> (take_block H m a sz, Some (a + H)))"
proof (induction as arbitrary: p)
  case Nil
  then show ?case by (subst allocate_loop.simps) simp
next
  case (Cons a as)
  then have p: "p = Some a" and rest: "path m (next_f (m a)) as" by simp_all
  show ?case unfolding p using Cons.IH[OF rest]
    by (subst allocate_loop.simps) simp
qed

lemma take_block_free: "free_f (take_block H m a sz a) = 0"
  by (simp add: take_block_def splitBlock_def Let_def store_simps)

lemma path_lazy_init_fresh: "freeList s = None \<Longrightarrow> path (memory (lazy_init H s)) (freeList (lazy_init H s)) [0]"
  by (simp add: lazy_init_def initialize_def Let_def store_simps)

lemma allocate_path:
  assumes "path (memory (lazy_init H s)) (freeList (lazy_init H s)) as"
    and "0 < sz" and "sz \<le> MEMORY_SIZE"
  shows "allocate H s sz =
     Some (case find (fits (memory (lazy_init H s)) sz) as of
             None \<Rightarrow> (lazy_init H s, None)
           | Some a \<Rightarrow> ((lazy_init H s)\<lparr>memory := take_block H (memory (lazy_init H s)) a sz\<rparr>, Some (a + H)))"
  using assms(2,3) allocate_loop_path[OF assms(1), of H sz]
  by (simp add: allocate_def Let_def split: option.splits)

subsection \<open>The merge loop on a list\<close>

lemma merge_step_other: "x \<noteq> c \<Longrightarrow> merge_step H m c n x = m x"
  by (simp add: merge_step_def Let_def store_simps)

lemma merge_step_free: "free_f (merge_step H m c n x) = free_f (m x)"
  by (simp add: merge_step_def Let_def store_simps)

lemma merge_step_next: "n \<noteq> c \<Longrightarrow> next_f (merge_step H m c n c) = next_f (m n)"
  by (simp add: merge_step_def Let_def store_simps)

lemma merge_step_path:
  assumes "path m (Some c) (c # n # as)"
  shows "path (merge_step H m c n) (Some c) (c # as)"
proof -
  from assms have d: "distinct (c # n # as)" by (rule path_distinct)
  from assms have rest: "path m (next_f (m n)) as" by simp
  have "\<And>x. x \<in> set as \<Longrightarrow> x \<noteq> c" using d by auto
  then have "path (merge_step H m c n) (next_f (m n)) as = path m (next_f (m n)) as"
    by (intro path_cong) (simp add: merge_step_other)
  with rest d show ?thesis by (simp add: merge_step_next)
qed

lemma merge_loop_path:
  "path m p as \<Longrightarrow> merge_loop H m p = Some (fst (merge_list H m as))"
proof (induction H m as arbitrary: p rule: merge_list.induct)
  case (1 H m c n as)
  from "1.prems" have p: "p = Some c" and nx: "next_f (m c) = Some n" by simp_all
  show ?case
  proof (cases "free_f (m c) \<noteq> 0 \<and> free_f (m n) \<noteq> 0")
    case True
    from "1.prems" have "path (merge_step H m c n) (Some c) (c # as)"
      unfolding p by (rule merge_step_path)
    from "1.IH"(1)[OF True this] True show ?thesis unfolding p
      by (subst merge_loop.simps) (simp add: nx)
  next
    case False
    from "1.prems" have "path m (Some n) (n # as)" by simp
    from "1.IH"(2)[OF False this] False show ?thesis unfolding p
      by (subst merge_loop.simps) (auto simp add: nx)
  qed
next
  case "2_1"
  then show ?case by (subst merge_loop.simps) simp
next
  case "2_2"
  then show ?case by (subst merge_loop.simps) simp
qed

lemma merge_list_other: "x \<notin> set as \<Longrightarrow> fst (merge_list H m as) x = m x"
  by (induction H m as rule: merge_list.induct) (auto simp: merge_step_other)

lemma merge_list_free: "free_f (fst (merge_list H m as) x) = free_f (m x)"
  by (induction H m as rule: merge_list.induct) (auto simp: merge_step_free)

lemma merge_list_hd: "snd (merge_list H m (a # as)) = a # tl (snd (merge_list H m (a # as)))"
  by (induction H m "a # as" arbitrary: as rule: merge_list.induct) auto

lemma merge_list_length: "length (snd (merge_list H m as)) \<le> length as"
  by (induction H m as rule: merge_list.induct) auto

lemma merge_list_path:
  "path m p as \<Longrightarrow> path (fst (merge_list H m as)) p (snd (merge_list H m as))"
proof (induction H m as arbitrary: p rule: merge_list.induct)
  case (1 H m c n as)
  from "1.prems" have p: "p = Some c" and nx: "next_f (m c) = Some n" by simp_all
  show ?case
  proof (cases "free_f (m c) \<noteq> 0 \<and> free_f (m n) \<noteq> 0")
    case True
    from "1.prems" have "path (merge_step H m c n) (Some c) (c # as)"
      unfolding p by (rule merge_step_path)
    from "1.IH"(1)[OF True this] True show ?thesis unfolding p by simp
  next
    case False
    from "1.prems" have "path m (Some n) (n # as)" by simp
    from "1.IH"(2)[OF False this] have ih: "path (fst (merge_list H m (n # as))) (Some n) (snd (merge_list H m (n # as)))" .
    from "1.prems" have "c \<notin> set (n # as)" unfolding p by (rule path_notin)
    then have "fst (merge_list H m (n # as)) c = m c" by (rule merge_list_other)
    with ih nx False show ?thesis unfolding p by auto
  qed
qed simp_all

lemma merge_list_no_adjacent_free:
  "no_adjacent_free (fst (merge_list H m as)) (snd (merge_list H m as))"
proof (induction H m as rule: merge_list.induct)
  case (1 H m c n as)
  show ?case
  proof (cases "free_f (m c) \<noteq> 0 \<and> free_f (m n) \<noteq> 0")
    case True
    with "1.IH"(1) show ?thesis by simp
  next
    case False
    let ?r = "merge_list H m (n # as)"
    from merge_list_hd[of H m n as] obtain bs where bs: "snd ?r = n # bs" by blast
    from "1.IH"(2)[OF False] bs False show ?thesis
      by (auto simp add: merge_list_free)
  qed
qed simp_all

subsection \<open>Coverage\<close>


lemma covers_path: "covers H m p off as \<Longrightarrow> path m p as"
  by (induction as arbitrary: p off) auto

lemma covers_cong:
  "(\<And>x. x \<in> set as \<Longrightarrow> size_f (m' x) = size_f (m x) \<and> next_f (m' x) = next_f (m x)) \<Longrightarrow>
   covers H m' p off as = covers H m p off as"
  by (induction as arbitrary: p off) auto

lemma covers_lower: "0 < H \<Longrightarrow> covers H m p off as \<Longrightarrow> x \<in> set as \<Longrightarrow> off \<le> x"
proof (induction as arbitrary: p off)
  case Nil
  then show ?case by simp
next
  case (Cons a as)
  show ?case
  proof (cases "x = a")
    case True
    with Cons.prems show ?thesis by simp
  next
    case False
    with Cons.prems have "x \<in> set as"
      and "covers H m (next_f (m a)) (off + H + size_f (m a)) as" and "0 \<le> size_f (m a)" by auto
    with Cons.IH[of "next_f (m a)" "off + H + size_f (m a)"] Cons.prems(1) show ?thesis by simp
  qed
qed

lemma covers_end: "0 < H \<Longrightarrow> covers H m p off as \<Longrightarrow> off \<le> MEMORY_SIZE"
proof (induction as arbitrary: p off)
  case Nil
  then show ?case by simp
next
  case (Cons a as)
  then have "covers H m (next_f (m a)) (off + H + size_f (m a)) as" and "0 \<le> size_f (m a)" by auto
  with Cons.IH[of "next_f (m a)" "off + H + size_f (m a)"] Cons.prems(1) show ?case by simp
qed

lemma covers_tail_above:
  assumes "0 < H" and "covers H m (Some a) off (a # as)" and "x \<in> set as"
  shows "a + H + size_f (m a) \<le> x"
  using assms covers_lower[of H m "next_f (m a)" "off + H + size_f (m a)" as x] by auto

lemma covers_block_end:
  assumes "0 < H" and "covers H m (Some a) off (a # as)"
  shows "a + H + size_f (m a) \<le> MEMORY_SIZE"
  using assms covers_end[of H m "next_f (m a)" "off + H + size_f (m a)" as] by auto

lemma take_block_other:
  "x \<noteq> a \<Longrightarrow> x \<noteq> a + H + sz \<Longrightarrow> take_block H m a sz x = m x"
  by (simp add: take_block_def splitBlock_def Let_def store_simps)

lemma take_block_no_split:
  "\<not> sz + H < size_f (m a) \<Longrightarrow> take_block H m a sz = set_free m a 0"
  by (simp add: take_block_def)

lemma splitBlock_chosen:
  "0 < H + sz \<Longrightarrow>
   splitBlock H m a sz a = \<lparr>size_f = sz, free_f = 0, next_f = Some (a + H + sz)\<rparr>"
  by (simp add: splitBlock_def Let_def store_simps)

lemma splitBlock_new:
  "0 < H + sz \<Longrightarrow>
   splitBlock H m a sz (a + H + sz) =
     \<lparr>size_f = int32 (size_f (m a) - sz - H), free_f = 1, next_f = next_f (m a)\<rparr>"
  by (simp add: splitBlock_def Let_def store_simps)

lemma splitBlock_other:
  "x \<noteq> a \<Longrightarrow> x \<noteq> a + H + sz \<Longrightarrow> splitBlock H m a sz x = m x"
  by (simp add: splitBlock_def Let_def store_simps)

text \<open>Taking the block at the head of a covering list.\<close>

lemma take_block_covers_head:
  assumes H: "0 < H" and sz: "0 < sz" and off: "0 \<le> a"
    and c: "covers H m (Some a) a (a # as)"
  shows "covers H (take_block H m a sz) (Some a) a
           (if sz + H < size_f (m a) then a # (a + H + sz) # as else a # as)"
proof (cases "sz + H < size_f (m a)")
  case False
  have "covers H (set_free m a 0) (Some a) a (a # as) = covers H m (Some a) a (a # as)"
    by (rule covers_cong) (simp add: store_simps)
  with c have cc: "covers H (set_free m a 0) (Some a) a (a # as)" by blast
  from False have tb: "take_block H m a sz = set_free m a 0" by (rule take_block_no_split)
  from False cc show ?thesis unfolding tb by simp
next
  case True
  let ?m' = "splitBlock H m a sz"
  let ?nb = "a + H + sz"
  let ?old = "size_f (m a)"
  have pos: "0 < H + sz" using H sz by simp
  from c have rest: "covers H m (next_f (m a)) (a + H + ?old) as" by simp
  from covers_block_end[OF H c] have "a + H + ?old \<le> MEMORY_SIZE" .
  with off H have "?old < 2 ^ 31" by (simp add: MEMORY_SIZE_def)
  with True H sz have i32: "int32 (?old - sz - H) = ?old - sz - H"
    by (intro int32_id) simp_all
  have ma: "?m' a = \<lparr>size_f = sz, free_f = 0, next_f = Some ?nb\<rparr>"
    by (rule splitBlock_chosen[OF pos])
  have mn: "?m' ?nb = \<lparr>size_f = ?old - sz - H, free_f = 1, next_f = next_f (m a)\<rparr>"
    using splitBlock_new[OF pos, of m a] i32 by simp
  have "\<And>x. x \<in> set as \<Longrightarrow> ?m' x = m x"
  proof -
    fix x assume "x \<in> set as"
    from covers_tail_above[OF H c this] True H sz have "x \<noteq> a" "x \<noteq> ?nb" by simp_all
    then show "?m' x = m x" by (rule splitBlock_other)
  qed
  then have "covers H ?m' (next_f (m a)) (a + H + ?old) as = covers H m (next_f (m a)) (a + H + ?old) as"
    by (intro covers_cong) simp
  with rest have tail: "covers H ?m' (next_f (m a)) (a + H + ?old) as" by simp
  have e: "a + H + sz + H + (?old - sz - H) = a + H + ?old" by simp
  have cov: "covers H ?m' (Some a) a (a # ?nb # as)"
    unfolding covers.simps ma mn Block.simps e using tail True sz by simp
  from True have tb: "take_block H m a sz = ?m'" by (simp add: take_block_def)
  from True have "(if sz + H < size_f (m a) then a # ?nb # as else a # as) = a # ?nb # as"
    by simp
  with cov show ?thesis unfolding tb by (simp only:)
qed

subsection \<open>Neighbouring free blocks\<close>

lemma no_adjacent_free_cong:
  "(\<And>x. x \<in> set as \<Longrightarrow> free_f (m' x) = free_f (m x)) \<Longrightarrow>
   no_adjacent_free m' as = no_adjacent_free m as"
  by (induction m as rule: no_adjacent_free.induct) auto

lemma no_adjacent_free_Cons:
  "no_adjacent_free m (a # as) =
     ((as \<noteq> [] \<longrightarrow> \<not> (free_f (m a) \<noteq> 0 \<and> free_f (m (hd as)) \<noteq> 0)) \<and> no_adjacent_free m as)"
  by (cases as) auto

lemma take_block_no_adjacent_head:
  assumes H: "0 < H" and sz: "0 < sz"
    and c: "covers H m (Some a) a (a # as)" and n: "no_adjacent_free m (a # as)"
    and f: "free_f (m a) \<noteq> 0"
  shows "no_adjacent_free (take_block H m a sz)
           (if sz + H < size_f (m a) then a # (a + H + sz) # as else a # as)"
proof -
  let ?m' = "take_block H m a sz"
  have same: "\<And>x. x \<in> set as \<Longrightarrow> ?m' x = m x"
  proof -
    fix x assume x: "x \<in> set as"
    from covers_tail_above[OF H c x] c H sz have "x \<noteq> a" by auto
    show "?m' x = m x"
    proof (cases "sz + H < size_f (m a)")
      case True
      with covers_tail_above[OF H c x] H sz have "x \<noteq> a + H + sz" by simp
      with \<open>x \<noteq> a\<close> show ?thesis by (simp add: take_block_other)
    next
      case False
      with \<open>x \<noteq> a\<close> show ?thesis by (simp add: take_block_no_split store_simps)
    qed
  qed
  then have tl: "no_adjacent_free ?m' as = no_adjacent_free m as"
    by (intro no_adjacent_free_cong) simp
  from n f have hd0: "as \<noteq> [] \<Longrightarrow> free_f (m (hd as)) = 0"
    by (auto simp: no_adjacent_free_Cons)
  have hd': "as \<noteq> [] \<Longrightarrow> free_f (?m' (hd as)) = 0"
    using hd0 same[of "hd as"] by simp
  from n have "no_adjacent_free m as" by (simp add: no_adjacent_free_Cons)
  with tl have tl': "no_adjacent_free ?m' as" by simp
  have a0: "free_f (?m' a) = 0" by (rule take_block_free)
  show ?thesis using tl' hd' a0
    by (simp add: no_adjacent_free_Cons)
qed

text \<open>The blocks on the list after the block \<open>a\<close> of the list \<open>as\<close> has been taken.\<close>

lemma take_block_invariant:
  assumes H: "0 < H" and sz: "0 < sz"
  shows "0 \<le> off \<Longrightarrow> covers H m p off as \<Longrightarrow> no_adjacent_free m as \<Longrightarrow>
         find (fits m sz) as = Some a \<Longrightarrow>
         \<exists>bs. covers H (take_block H m a sz) p off bs \<and> no_adjacent_free (take_block H m a sz) bs"
proof (induction as arbitrary: p off)
  case Nil
  then show ?case by simp
next
  case (Cons x xs)
  let ?m' = "take_block H m a sz"
  from Cons.prems have p: "p = Some x" and x: "x = off" and nn: "0 \<le> size_f (m x)"
    and rest: "covers H m (next_f (m x)) (off + H + size_f (m x)) xs" by auto
  show ?case
  proof (cases "fits m sz x")
    case True
    with Cons.prems have ax: "a = x" by simp
    from Cons.prems(1,2) have x0: "0 \<le> x" and cx: "covers H m (Some x) x (x # xs)" by auto
    from True have fx: "free_f (m x) \<noteq> 0" by (simp add: fits_def)
    let ?bs = "if sz + H < size_f (m x) then x # (x + H + sz) # xs else x # xs"
    from take_block_no_adjacent_head[OF H sz cx Cons.prems(3) fx]
    have na: "no_adjacent_free (take_block H m x sz) ?bs" .
    from take_block_covers_head[OF H sz x0 cx]
    have "covers H (take_block H m x sz) (Some x) x ?bs" .
    with na show ?thesis unfolding ax p x[symmetric] by blast
  next
    case False
    with Cons.prems have fa: "find (fits m sz) xs = Some a" by simp
    then have ax: "a \<in> set xs" by (auto dest: find_SomeD)
    then obtain y ys where xs: "xs = y # ys" by (cases xs) auto
    have off': "0 \<le> off + H + size_f (m x)" using Cons.prems(1) H nn by simp
    from Cons.prems(3) have "no_adjacent_free m xs" by (simp add: no_adjacent_free_Cons)
    from Cons.IH[OF off' rest this fa] obtain bs where
      bs: "covers H ?m' (next_f (m x)) (off + H + size_f (m x)) bs"
      and nbs: "no_adjacent_free ?m' bs" by blast
    from covers_lower[OF H rest ax] x H nn sz have xa: "x \<noteq> a" "x \<noteq> a + H + sz" by simp_all
    then have mx: "?m' x = m x" by (rule take_block_other)
    with bs p x nn have cov: "covers H ?m' p off (x # bs)" by simp
    from rest xs have nx: "next_f (m x) = Some y" by simp
    with bs obtain bs' where bs': "bs = y # bs'" by (cases bs) auto
    have "\<not> (free_f (?m' x) \<noteq> 0 \<and> free_f (?m' y) \<noteq> 0)"
    proof (cases "y = a")
      case True
      then show ?thesis by (simp add: take_block_free)
    next
      case ya: False
      from rest xs have "y = off + H + size_f (m x)" by simp
      moreover from covers_lower[OF H rest ax] have "off + H + size_f (m x) \<le> a" .
      ultimately have "y \<noteq> a + H + sz" using H sz by simp
      with ya have "?m' y = m y" by (simp add: take_block_other)
      with mx Cons.prems(3) xs show ?thesis by simp
    qed
    with nbs bs' have "no_adjacent_free ?m' (x # bs)" by simp
    with cov show ?thesis by blast
  qed
qed


subsection \<open>Merging keeps the coverage\<close>

lemma merge_step_covers:
  assumes H: "0 < H" and off: "0 \<le> c"
    and cv: "covers H m (Some c) c (c # n # as)"
  shows "covers H (merge_step H m c n) (Some c) c (c # as)"
proof -
  let ?m' = "merge_step H m c n"
  from cv have n: "n = c + H + size_f (m c)" and sc: "0 \<le> size_f (m c)" and sn: "0 \<le> size_f (m n)"
    and rest: "covers H m (next_f (m n)) (n + H + size_f (m n)) as" by auto
  from cv have cn: "covers H m (Some n) n (n # as)" by auto
  from covers_block_end[OF H cn] have "n + H + size_f (m n) \<le> MEMORY_SIZE" .
  with n off H sc sn have "size_f (m c) + (H + size_f (m n)) < 2 ^ 31"
    by (simp add: MEMORY_SIZE_def)
  with sc sn H have i32: "int32 (size_f (m c) + (H + size_f (m n))) = size_f (m c) + (H + size_f (m n))"
    by (intro int32_id) simp_all
  from n H sc have nc: "n \<noteq> c" by simp
  have mc: "?m' c = (m c)\<lparr>size_f := size_f (m c) + (H + size_f (m n)), next_f := next_f (m n)\<rparr>"
    using nc by (simp add: merge_step_def Let_def store_simps i32)
  have "\<And>x. x \<in> set as \<Longrightarrow> ?m' x = m x"
  proof -
    fix x assume "x \<in> set as"
    from covers_tail_above[OF H cn this] n H sc sn have "x \<noteq> c" by simp
    then show "?m' x = m x" by (rule merge_step_other)
  qed
  then have "covers H ?m' (next_f (m n)) (n + H + size_f (m n)) as =
             covers H m (next_f (m n)) (n + H + size_f (m n)) as"
    by (intro covers_cong) simp
  with rest have tail: "covers H ?m' (next_f (m n)) (n + H + size_f (m n)) as" by simp
  have nf: "next_f (?m' c) = next_f (m n)" using mc by simp
  have sf: "size_f (?m' c) = size_f (m c) + (H + size_f (m n))" using mc by simp
  have e: "c + H + size_f (?m' c) = n + H + size_f (m n)"
    using n sf by simp
  have tail': "covers H ?m' (next_f (?m' c)) (c + H + size_f (?m' c)) as"
    unfolding nf e by (rule tail)
  have "0 \<le> size_f (?m' c)" using sf sc sn H by simp
  with tail' show ?thesis unfolding covers.simps by (intro conjI) simp_all
qed

lemma merge_list_covers:
  "0 < H \<Longrightarrow> 0 \<le> off \<Longrightarrow> covers H m p off as \<Longrightarrow>
   covers H (fst (merge_list H m as)) p off (snd (merge_list H m as))"
proof (induction H m as arbitrary: p off rule: merge_list.induct)
  case (1 H' m c n as)
  from "1.prems" have p: "p = Some c" and c: "c = off" by auto
  show ?case
  proof (cases "free_f (m c) \<noteq> 0 \<and> free_f (m n) \<noteq> 0")
    case True
    from "1.prems" have c0: "0 \<le> c" and cv: "covers H' m (Some c) c (c # n # as)" by auto
    from merge_step_covers[OF "1.prems"(1) c0 cv]
    have "covers H' (merge_step H' m c n) (Some c) c (c # as)" .
    from "1.IH"(1)[OF True "1.prems"(1) c0 this] True show ?thesis
      unfolding p c[symmetric] by simp
  next
    case False
    let ?r = "merge_list H' m (n # as)"
    from "1.prems" have sc: "0 \<le> size_f (m c)" and nx: "next_f (m c) = Some n"
      and cn: "covers H' m (Some n) (off + H' + size_f (m c)) (n # as)" by auto
    from "1.prems" sc have "0 \<le> off + H' + size_f (m c)" by simp
    from "1.IH"(2)[OF False "1.prems"(1) this cn]
    have ih: "covers H' (fst ?r) (Some n) (off + H' + size_f (m c)) (snd ?r)" .
    from "1.prems"(3) have "path m (Some c) (c # n # as)" unfolding p by (rule covers_path)
    then have "c \<notin> set (n # as)" by (rule path_notin)
    then have "fst ?r c = m c" by (rule merge_list_other)
    with ih nx sc False p c show ?thesis by auto
  qed
qed simp_all

subsection \<open>Initialisation and the example state\<close>

lemma initialize_block:
  "0 < H \<Longrightarrow> H \<le> MEMORY_SIZE \<Longrightarrow>
   memory (initialize H s) 0 = (memory s 0)\<lparr>size_f := MEMORY_SIZE - H, free_f := 1, next_f := None\<rparr>"
  by (simp add: initialize_def Let_def store_simps int32_id MEMORY_SIZE_def)

lemma initialize_freeList: "freeList (initialize H s) = Some 0"
  by (simp add: initialize_def Let_def)

lemma example_state_path:
  "path (memory (lazy_init 16 example_state)) (freeList (lazy_init 16 example_state)) [0, 144, 1184, 5296]"
  by (simp add: example_state_def lazy_init_def)

lemma example_state_list:
  "path (memory example_state) (freeList example_state) [0, 144, 1184, 5296]"
  by (simp add: example_state_def)

subsection \<open>What the calls return\<close>

lemma allocate_loop_result:
  assumes "allocate_loop H m p sz = Some res"
  shows "case snd res of None \<Rightarrow> fst res = m
    | Some q \<Rightarrow> fits m sz (q - H) \<and> fst res = take_block H m (q - H) sz"
proof (rule allocate_loop.raw_induct[where P = "\<lambda>H m p sz res. case snd res of None \<Rightarrow> fst res = m
    | Some q \<Rightarrow> fits m sz (q - H) \<and> fst res = take_block H m (q - H) sz", OF _ assms])
  fix loop :: "int \<Rightarrow> mem \<Rightarrow> ptr \<Rightarrow> int \<Rightarrow> (mem \<times> ptr) option"
    and H m current sz res
  assume ih: "\<And>H m current sz res. loop H m current sz = Some res \<Longrightarrow>
      (case snd res of None \<Rightarrow> fst res = m
       | Some q \<Rightarrow> fits m sz (q - H) \<and> fst res = take_block H m (q - H) sz)"
    and body: "(case current of None \<Rightarrow> Some (m, None)
      | Some c \<Rightarrow>
          if fits m sz c then Some (take_block H m c sz, Some (c + H))
          else loop H m (next_f (m c)) sz) = Some res"
  show "case snd res of None \<Rightarrow> fst res = m
       | Some q \<Rightarrow> fits m sz (q - H) \<and> fst res = take_block H m (q - H) sz"
  proof (cases current)
    case None
    with body show ?thesis by auto
  next
    case (Some c)
    show ?thesis
    proof (cases "fits m sz c")
      case True
      with body Some show ?thesis by auto
    next
      case False
      with body Some have "loop H m (next_f (m c)) sz = Some res" by simp
      then show ?thesis by (rule ih)
    qed
  qed
qed

lemma allocate_Some_result:
  assumes "allocate H s sz = Some (s', Some r)"
  shows "0 < sz \<and> sz \<le> MEMORY_SIZE \<and> fits (memory (lazy_init H s)) sz (r - H) \<and>
         s' = (lazy_init H s)\<lparr>memory := take_block H (memory (lazy_init H s)) (r - H) sz\<rparr>"
proof -
  from assms have v: "0 < sz" "sz \<le> MEMORY_SIZE"
    by (auto simp add: allocate_def split: if_splits)
  let ?s1 = "lazy_init H s"
  from assms v obtain m' where
    l: "allocate_loop H (memory ?s1) (freeList ?s1) sz = Some (m', Some r)"
    and s': "s' = ?s1\<lparr>memory := m'\<rparr>"
    by (auto simp add: allocate_def Let_def split: option.splits)
  from allocate_loop_result[OF l] v s' show ?thesis by simp
qed

lemma initialize_other: "x \<noteq> 0 \<Longrightarrow> memory (initialize H s) x = memory s x"
  by (simp add: initialize_def Let_def store_simps)

lemma lazy_init_path:
  assumes "path (memory s) (freeList s) as"
  shows "\<exists>bs. path (memory (lazy_init H s)) (freeList (lazy_init H s)) bs"
proof (cases "freeList s = None")
  case True
  then show ?thesis using path_lazy_init_fresh by blast
next
  case False
  with assms show ?thesis by (auto simp: lazy_init_def)
qed

lemma allocate_returns:
  assumes "path (memory s) (freeList s) as"
  shows "\<exists>s' r. allocate H s sz = Some (s', r)"
proof (cases "sz \<le> 0 \<or> MEMORY_SIZE < sz")
  case True
  then show ?thesis by (auto simp: allocate_def)
next
  case False
  then have v: "0 < sz" "sz \<le> MEMORY_SIZE" by auto
  from lazy_init_path[OF assms] obtain bs where
    "path (memory (lazy_init H s)) (freeList (lazy_init H s)) bs" ..
  from allocate_path[OF this v] show ?thesis by (simp split: option.splits)
qed

lemma deallocate_path:
  assumes "path (memory s) (freeList s) as"
  shows "deallocate H s (Some q) =
           Some (s\<lparr>memory := fst (merge_list H (set_free (memory s) (q - H) 1) as)\<rparr>)"
proof -
  from assms have "path (set_free (memory s) (q - H) 1) (freeList s) as"
    by (simp add: path_set_free)
  from merge_loop_path[OF this, of H] show ?thesis
    by (simp add: deallocate_def mergeFreeBlocks_def)
qed

lemma deallocate_list:
  assumes "path (memory s) (freeList s) as"
  shows "\<exists>s' bs. deallocate H s (Some q) = Some s' \<and> path (memory s') (freeList s') bs \<and>
           length bs \<le> length as \<and> no_adjacent_free (memory s') bs"
proof -
  let ?m = "set_free (memory s) (q - H) 1"
  from assms have pm: "path ?m (freeList s) as" by (simp add: path_set_free)
  from merge_list_path[OF pm, of H] merge_list_length[of H ?m as]
    merge_list_no_adjacent_free[of H ?m as]
  show ?thesis unfolding deallocate_path[OF assms] by auto
qed

subsection \<open>The invariant of the reachable states\<close>

lemma initialize_covers:
  "0 < H \<Longrightarrow> H \<le> MEMORY_SIZE \<Longrightarrow>
   covers H (memory (initialize H s)) (freeList (initialize H s)) 0 [0]"
  by (simp add: initialize_block initialize_freeList)

lemma lazy_init_invariant:
  assumes "0 < H" and "H \<le> MEMORY_SIZE"
    and "freeList s = None \<or>
         (\<exists>as. covers H (memory s) (freeList s) 0 as \<and> no_adjacent_free (memory s) as)"
  shows "\<exists>as. covers H (memory (lazy_init H s)) (freeList (lazy_init H s)) 0 as \<and>
              no_adjacent_free (memory (lazy_init H s)) as"
proof (cases "freeList s = None")
  case True
  then have "lazy_init H s = initialize H s" by (simp add: lazy_init_def)
  with initialize_covers[OF assms(1,2), of s] have
    "covers H (memory (lazy_init H s)) (freeList (lazy_init H s)) 0 [0] \<and>
     no_adjacent_free (memory (lazy_init H s)) [0]" by simp
  then show ?thesis ..
next
  case False
  then have "lazy_init H s = s" by (auto simp add: lazy_init_def)
  with False assms(3) show ?thesis by auto
qed

lemma allocate_invariant:
  assumes H: "0 < H" "H \<le> MEMORY_SIZE"
    and inv: "freeList s = None \<or>
         (\<exists>as. covers H (memory s) (freeList s) 0 as \<and> no_adjacent_free (memory s) as)"
    and al: "allocate H s sz = Some (s', r)"
  shows "freeList s' = None \<or>
         (\<exists>as. covers H (memory s') (freeList s') 0 as \<and> no_adjacent_free (memory s') as)"
proof (cases "sz \<le> 0 \<or> MEMORY_SIZE < sz")
  case True
  with al have "s' = s" by (auto simp: allocate_def)
  with inv show ?thesis by simp
next
  case False
  then have v: "0 < sz" "sz \<le> MEMORY_SIZE" by auto
  let ?s1 = "lazy_init H s"
  from lazy_init_invariant[OF H inv] obtain as where
    c: "covers H (memory ?s1) (freeList ?s1) 0 as" and n: "no_adjacent_free (memory ?s1) as"
    by blast
  from c have p: "path (memory ?s1) (freeList ?s1) as" by (rule covers_path)
  show ?thesis
  proof (cases "find (fits (memory ?s1) sz) as")
    case None
    with al allocate_path[OF p v] have "s' = ?s1" by simp
    with c n show ?thesis by blast
  next
    case (Some a)
    with al allocate_path[OF p v] have s': "s' = ?s1\<lparr>memory := take_block H (memory ?s1) a sz\<rparr>"
      by simp
    from take_block_invariant[OF H(1) v(1) _ c n Some] obtain bs where
      "covers H (take_block H (memory ?s1) a sz) (freeList ?s1) 0 bs"
      "no_adjacent_free (take_block H (memory ?s1) a sz) bs" by auto
    then show ?thesis unfolding s' by auto
  qed
qed

lemma deallocate_invariant:
  assumes H: "0 < H"
    and inv: "freeList s = None \<or>
         (\<exists>as. covers H (memory s) (freeList s) 0 as \<and> no_adjacent_free (memory s) as)"
    and de: "deallocate H s p = Some s'"
  shows "freeList s' = None \<or>
         (\<exists>as. covers H (memory s') (freeList s') 0 as \<and> no_adjacent_free (memory s') as)"
proof (cases p)
  case None
  with de have "s' = s" by (simp add: deallocate_def)
  with inv show ?thesis by simp
next
  case (Some q)
  let ?m = "set_free (memory s) (q - H) 1"
  show ?thesis
  proof (cases "freeList s = None")
    case True
    with de Some have "freeList s' = None"
      by (auto simp add: deallocate_def mergeFreeBlocks_def split: option.splits)
    then show ?thesis ..
  next
    case False
    with inv obtain as where c: "covers H (memory s) (freeList s) 0 as" by blast
    have "covers H ?m (freeList s) 0 as = covers H (memory s) (freeList s) 0 as"
      by (rule covers_cong) (simp add: store_simps)
    with c have c': "covers H ?m (freeList s) 0 as" by simp
    then have p: "path ?m (freeList s) as" by (rule covers_path)
    from de Some merge_loop_path[OF p, of H]
    have s': "s' = s\<lparr>memory := fst (merge_list H ?m as)\<rparr>"
      by (simp add: deallocate_def mergeFreeBlocks_def)
    from merge_list_covers[OF H _ c'] merge_list_no_adjacent_free[of H ?m as]
    show ?thesis unfolding s' by auto
  qed
qed

lemma invariant_path:
  assumes "freeList s = None \<or>
         (\<exists>as. covers H (memory s) (freeList s) 0 as \<and> no_adjacent_free (memory s) as)"
  shows "\<exists>as. path (memory s) (freeList s) as \<and> no_adjacent_free (memory s) as"
  using assms
proof
  assume "freeList s = None"
  then have "path (memory s) (freeList s) [] \<and> no_adjacent_free (memory s) []" by simp
  then show ?thesis ..
next
  assume "\<exists>as. covers H (memory s) (freeList s) 0 as \<and> no_adjacent_free (memory s) as"
  then show ?thesis using covers_path by blast
qed

lemma run_invariant:
  assumes H: "0 < H" "H \<le> MEMORY_SIZE"
  shows "freeList s = None \<or>
           (\<exists>as. covers H (memory s) (freeList s) 0 as \<and> no_adjacent_free (memory s) as) \<Longrightarrow>
         calls_in_contract H s cs \<Longrightarrow>
         \<exists>s'. run H s cs = Some s' \<and>
           (freeList s' = None \<or>
            (\<exists>as. covers H (memory s') (freeList s') 0 as \<and> no_adjacent_free (memory s') as))"
proof (induction cs arbitrary: s)
  case Nil
  then show ?case by simp
next
  case (Cons c cs)
  from invariant_path[OF Cons.prems(1)] obtain as where p: "path (memory s) (freeList s) as"
    by blast
  show ?case
  proof (cases c)
    case (Allocate sz)
    from allocate_returns[OF p] obtain s1 r where a: "allocate H s sz = Some (s1, r)" by blast
    with Cons.prems(2) have c1: "calls_in_contract H s1 cs" unfolding Allocate by simp
    from allocate_invariant[OF H Cons.prems(1) a] c1 have
      "\<exists>s'. run H s1 cs = Some s' \<and>
         (freeList s' = None \<or>
          (\<exists>as. covers H (memory s') (freeList s') 0 as \<and> no_adjacent_free (memory s') as))"
      by (rule Cons.IH)
    with a show ?thesis unfolding Allocate by simp
  next
    case (Deallocate q)
    have "\<exists>s1. deallocate H s q = Some s1"
    proof (cases q)
      case None
      then show ?thesis by (simp add: deallocate_def)
    next
      case (Some x)
      from deallocate_list[OF p, of H x] show ?thesis unfolding Some by blast
    qed
    then obtain s1 where d: "deallocate H s q = Some s1" ..
    with Cons.prems(2) have c1: "calls_in_contract H s1 cs" unfolding Deallocate by simp
    from deallocate_invariant[OF H(1) Cons.prems(1) d] c1 have
      "\<exists>s'. run H s1 cs = Some s' \<and>
         (freeList s' = None \<or>
          (\<exists>as. covers H (memory s') (freeList s') 0 as \<and> no_adjacent_free (memory s') as))"
      by (rule Cons.IH)
    with d show ?thesis unfolding Deallocate by simp
  qed
qed

subsection \<open>The example states\<close>

lemma main_reaches_example_state:
  "run 16 fresh [Allocate 128, Allocate 1024, Allocate 4096, Deallocate (Some 160)] =
     Some example_state \<and>
   calls_in_contract 16 fresh [Allocate 128, Allocate 1024, Allocate 4096, Deallocate (Some 160)]"
proof -
  let ?z = "memory fresh"
  let ?s1 = "\<lparr>memory = ?z
        (0 := \<lparr>size_f = 128, free_f = 0, next_f = Some 144\<rparr>,
         144 := \<lparr>size_f = 102240, free_f = 1, next_f = None\<rparr>),
      freeList = Some 0\<rparr>"
  let ?s2 = "\<lparr>memory = ?z
        (0 := \<lparr>size_f = 128, free_f = 0, next_f = Some 144\<rparr>,
         144 := \<lparr>size_f = 1024, free_f = 0, next_f = Some 1184\<rparr>,
         1184 := \<lparr>size_f = 101200, free_f = 1, next_f = None\<rparr>),
      freeList = Some 0\<rparr>"
  let ?s3 = "\<lparr>memory = ?z
        (0 := \<lparr>size_f = 128, free_f = 0, next_f = Some 144\<rparr>,
         144 := \<lparr>size_f = 1024, free_f = 0, next_f = Some 1184\<rparr>,
         1184 := \<lparr>size_f = 4096, free_f = 0, next_f = Some 5296\<rparr>,
         5296 := \<lparr>size_f = 97088, free_f = 1, next_f = None\<rparr>),
      freeList = Some 0\<rparr>"
  have p0: "path (memory (lazy_init 16 fresh)) (freeList (lazy_init 16 fresh)) [0]"
    by (rule path_lazy_init_fresh) (simp add: fresh_def)
  have a1: "allocate 16 fresh 128 = Some (?s1, Some 16)"
    using allocate_path[OF p0, of 128]
    by (simp add: MEMORY_SIZE_def lazy_init_def initialize_def Let_def fits_def store_simps
        int32_def take_block_def splitBlock_def fun_eq_iff fresh_def)
  have p1: "path (memory (lazy_init 16 ?s1)) (freeList (lazy_init 16 ?s1)) [0, 144]"
    by (simp add: lazy_init_def)
  have a2: "allocate 16 ?s1 1024 = Some (?s2, Some 160)"
    using allocate_path[OF p1, of 1024]
    by (simp add: MEMORY_SIZE_def lazy_init_def fits_def store_simps
        int32_def take_block_def splitBlock_def Let_def fun_eq_iff)
  have p2: "path (memory (lazy_init 16 ?s2)) (freeList (lazy_init 16 ?s2)) [0, 144, 1184]"
    by (simp add: lazy_init_def)
  have a3: "allocate 16 ?s2 4096 = Some (?s3, Some 1200)"
    using allocate_path[OF p2, of 4096]
    by (simp add: MEMORY_SIZE_def lazy_init_def fits_def store_simps
        int32_def take_block_def splitBlock_def Let_def fun_eq_iff)
  have p3: "path (set_free (memory ?s3) (160 - 16) 1) (freeList ?s3) [0, 144, 1184, 5296]"
    by (simp add: store_simps)
  have d: "deallocate 16 ?s3 (Some 160) = Some example_state"
    using merge_loop_path[OF p3, of 16]
    by (simp add: deallocate_def mergeFreeBlocks_def store_simps example_state_def fun_eq_iff)
  have p3': "path (memory ?s3) (freeList ?s3) [0, 144, 1184, 5296]" by simp
  have c: "in_contract 16 ?s3 (Some 160)"
    unfolding in_contract_path[OF p3'] by simp
  from a1 a2 a3 d c show ?thesis
    by (simp only: run.simps calls_in_contract.simps option.case prod.case simp_thms)
qed

lemma adjacent_free_state_list:
  "path (memory adjacent_free_state) (freeList adjacent_free_state) [0, 144, 1184]"
  by (simp add: adjacent_free_state_def)

lemma example_state_in_contract: "in_contract 16 example_state (Some 1200)"
  unfolding in_contract_path[OF example_state_list] by simp

lemma in_contract_null: "in_contract H s None"
  by (simp add: in_contract_def)


section \<open>The claims\<close>

text \<open>
  C1. Coverage. Take a sequence of calls of \<^verbatim>\<open>allocate\<close> and \<^verbatim>\<open>deallocate\<close>, started on an
  arena that is not yet initialised, in which every call of \<^verbatim>\<open>deallocate\<close> passes \<^verbatim>\<open>NULL\<close>
  or the payload address of a block that is on the list at that call. Every such sequence
  returns, and in the state it leads to, once the list is initialised, the blocks on the
  list, in list order and starting at offset 0, partition the arena: each block takes
  \<open>H + size\<close> bytes, each header begins where the block before it ends, and the last block
  ends at \<open>MEMORY_SIZE\<close>. A prefix of such a sequence is such a sequence, so this holds after
  every call.
\<close>

theorem coverage_invariant:
  assumes "0 < H" and "H \<le> MEMORY_SIZE" and "freeList s = None"
    and "calls_in_contract H s cs"
  shows "\<exists>s'. run H s cs = Some s' \<and>
           (freeList s' \<noteq> None \<longrightarrow> (\<exists>as. covers H (memory s') (freeList s') 0 as))"
  using run_invariant[OF assms(1,2), of s cs] assms(3,4) by auto

theorem coverage_invariant_witness:
  "(0::int) < 16 \<and> 16 \<le> MEMORY_SIZE \<and> freeList fresh = None \<and>
   calls_in_contract 16 fresh [Allocate 128, Allocate 1024, Allocate 4096, Deallocate (Some 160)] \<and>
   run 16 fresh [Allocate 128, Allocate 1024, Allocate 4096, Deallocate (Some 160)] =
     Some example_state \<and>
   freeList example_state \<noteq> None \<and>
   (\<exists>as. covers 16 (memory example_state) (freeList example_state) 0 as)"
  using coverage_invariant[of 16 fresh "[Allocate 128, Allocate 1024, Allocate 4096, Deallocate (Some 160)]"]
    main_reaches_example_state
  by (simp add: MEMORY_SIZE_def fresh_def example_state_def)

text \<open>
  C2. First fit. For a valid size, \<^verbatim>\<open>allocate\<close> selects the first block in list order
  that is free and whose \<^verbatim>\<open>size\<close> is at least the request, marks it as allocated and
  returns the address \<open>H\<close> bytes after its header. The selected block is a function of the
  state and the size alone, so equal states and sizes give the same block. The list that the
  search walks is the one of \<open>lazy_init H s\<close>: the list of \<open>s\<close> when it is initialised, else
  the single block that initialisation creates.
\<close>

theorem allocate_first_fit:
  assumes "path (memory (lazy_init H s)) (freeList (lazy_init H s)) as"
    and "0 < sz" and "sz \<le> MEMORY_SIZE"
  shows "\<exists>s'. allocate H s sz =
            Some (s', map_option (\<lambda>a. a + H) (find (fits (memory (lazy_init H s)) sz) as)) \<and>
          (\<forall>a. find (fits (memory (lazy_init H s)) sz) as = Some a \<longrightarrow>
             free_f (memory s' a) = 0 \<and>
             (\<exists>pre post. as = pre @ a # post \<and> fits (memory (lazy_init H s)) sz a \<and>
                (\<forall>x \<in> set pre. \<not> fits (memory (lazy_init H s)) sz x)))"
proof (cases "find (fits (memory (lazy_init H s)) sz) as")
  case None
  then show ?thesis by (simp add: allocate_path[OF assms])
next
  case (Some a)
  from find_first[OF Some] Some show ?thesis
    by (simp add: allocate_path[OF assms] take_block_free)
qed

theorem allocate_first_fit_witness:
  "path (memory (lazy_init 16 example_state)) (freeList (lazy_init 16 example_state)) [0, 144, 1184, 5296] \<and>
   (0::int) < 512 \<and> 512 \<le> MEMORY_SIZE \<and>
   find (fits (memory (lazy_init 16 example_state)) 512) [0, 144, 1184, 5296] = Some 144 \<and>
   (\<exists>s'. allocate 16 example_state 512 = Some (s', Some 160) \<and> free_f (memory s' 144) = 0)"
proof -
  have f: "find (fits (memory (lazy_init 16 example_state)) 512) [0, 144, 1184, 5296] = Some 144"
    by (simp add: example_state_def lazy_init_def fits_def)
  have v: "(0::int) < 512" "512 \<le> MEMORY_SIZE" by (simp_all add: MEMORY_SIZE_def)
  from allocate_first_fit[OF example_state_path v] f
  have "\<exists>s'. allocate 16 example_state 512 = Some (s', Some 160) \<and> free_f (memory s' 144) = 0"
    by auto
  with example_state_path v f show ?thesis by simp
qed

text \<open>
  C3. Split or whole block. Let \<open>a\<close> be the block that \<^verbatim>\<open>allocate\<close> selects. If its
  \<^verbatim>\<open>size\<close> exceeds \<open>sz + H\<close>, the block is split: its \<^verbatim>\<open>size\<close> becomes \<open>sz\<close>, it is
  marked as allocated, and its successor is a new free block at \<open>a + H + sz\<close> of size
  \<open>old - sz - H\<close> that takes over the old successor. Otherwise only the flag of \<open>a\<close>
  is cleared: its \<^verbatim>\<open>size\<close> and link stay, and no other header changes.
\<close>

theorem split_or_whole_block:
  assumes "path (memory (lazy_init H s)) (freeList (lazy_init H s)) as"
    and "0 < sz" and "sz \<le> MEMORY_SIZE" and "0 < H"
    and "find (fits (memory (lazy_init H s)) sz) as = Some a"
    and "size_f (memory (lazy_init H s) a) < 2 ^ 31"
  shows "\<exists>s'. allocate H s sz = Some (s', Some (a + H)) \<and>
     (if sz + H < size_f (memory (lazy_init H s) a) then
        memory s' a = \<lparr>size_f = sz, free_f = 0, next_f = Some (a + H + sz)\<rparr> \<and>
        memory s' (a + H + sz) =
          \<lparr>size_f = size_f (memory (lazy_init H s) a) - sz - H, free_f = 1,
           next_f = next_f (memory (lazy_init H s) a)\<rparr>
      else memory s' = (memory (lazy_init H s))(a := (memory (lazy_init H s) a)\<lparr>free_f := 0\<rparr>))"
proof -
  let ?m = "memory (lazy_init H s)"
  have pos: "0 < H + sz" using assms(2,4) by simp
  have al: "allocate H s sz = Some ((lazy_init H s)\<lparr>memory := take_block H ?m a sz\<rparr>, Some (a + H))"
    using allocate_path[OF assms(1,2,3)] assms(5) by simp
  show ?thesis
  proof (cases "sz + H < size_f (?m a)")
    case True
    with assms(2,4,6) have "int32 (size_f (?m a) - sz - H) = size_f (?m a) - sz - H"
      by (intro int32_id) simp_all
    with True show ?thesis unfolding al
      by (simp add: take_block_def splitBlock_chosen[OF pos] splitBlock_new[OF pos])
  next
    case False
    then show ?thesis unfolding al
      by (simp add: take_block_def set_free_def)
  qed
qed

theorem split_or_whole_block_witness:
  "path (memory (lazy_init 16 example_state)) (freeList (lazy_init 16 example_state)) [0, 144, 1184, 5296] \<and>
   find (fits (memory (lazy_init 16 example_state)) 512) [0, 144, 1184, 5296] = Some 144 \<and>
   find (fits (memory (lazy_init 16 example_state)) 1020) [0, 144, 1184, 5296] = Some 144 \<and>
   size_f (memory (lazy_init 16 example_state) 144) = 1024 \<and>
   (\<exists>s'. allocate 16 example_state 512 = Some (s', Some 160) \<and>
      memory s' 144 = \<lparr>size_f = 512, free_f = 0, next_f = Some 672\<rparr> \<and>
      memory s' 672 = \<lparr>size_f = 496, free_f = 1, next_f = Some 1184\<rparr>) \<and>
   (\<exists>s'. allocate 16 example_state 1020 = Some (s', Some 160) \<and>
      memory s' 144 = \<lparr>size_f = 1024, free_f = 0, next_f = Some 1184\<rparr>)"
proof -
  have f1: "find (fits (memory (lazy_init 16 example_state)) 512) [0, 144, 1184, 5296] = Some 144"
    and f2: "find (fits (memory (lazy_init 16 example_state)) 1020) [0, 144, 1184, 5296] = Some 144"
    and sz: "size_f (memory (lazy_init 16 example_state) 144) = 1024"
    by (simp_all add: example_state_def lazy_init_def fits_def)
  have nx: "next_f (memory (lazy_init 16 example_state) 144) = Some 1184"
    and fr: "memory (lazy_init 16 example_state) 144 = \<lparr>size_f = 1024, free_f = 1, next_f = Some 1184\<rparr>"
    by (simp_all add: example_state_def lazy_init_def)
  from split_or_whole_block[OF example_state_path _ _ _ f1]
    split_or_whole_block[OF example_state_path _ _ _ f2]
    example_state_path f1 f2 sz nx fr
  show ?thesis by (auto simp add: MEMORY_SIZE_def)
qed

text \<open>
  C4. No two free neighbours after \<^verbatim>\<open>deallocate\<close>. On every finite list, whatever free
  neighbours it has, \<^verbatim>\<open>deallocate\<close> with the payload address of a block on the list returns
  and leaves a list on which no two neighbours are both free: the merge pass walks the
  whole list, so it does not matter which block was freed or on which side its free
  neighbours are. In every state that a sequence of calls within the contract leads to from
  an arena that is not yet initialised, this holds after every call of \<^verbatim>\<open>deallocate\<close>
  within the contract, also the one with \<^verbatim>\<open>NULL\<close>, which returns before the merge pass and
  leaves the list as it was: no such state has two free neighbours.
\<close>

theorem deallocate_merges_all:
  "(path (memory s) (freeList s) as \<and> q - H \<in> set as \<longrightarrow>
      (\<exists>s' bs. deallocate H s (Some q) = Some s' \<and> path (memory s') (freeList s') bs \<and>
         no_adjacent_free (memory s') bs)) \<and>
   (0 < H \<and> H \<le> MEMORY_SIZE \<and> freeList s0 = None \<and> calls_in_contract H s0 cs \<and>
    run H s0 cs = Some s \<and> in_contract H s p \<longrightarrow>
      (\<exists>s' bs. deallocate H s p = Some s' \<and> path (memory s') (freeList s') bs \<and>
         no_adjacent_free (memory s') bs))"
proof (intro conjI impI)
  assume "path (memory s) (freeList s) as \<and> q - H \<in> set as"
  then have "path (memory s) (freeList s) as" ..
  from deallocate_list[OF this, of H q]
  show "\<exists>s' bs. deallocate H s (Some q) = Some s' \<and> path (memory s') (freeList s') bs \<and>
         no_adjacent_free (memory s') bs" by blast
next
  assume a: "0 < H \<and> H \<le> MEMORY_SIZE \<and> freeList s0 = None \<and> calls_in_contract H s0 cs \<and>
    run H s0 cs = Some s \<and> in_contract H s p"
  with run_invariant[of H s0 cs] have "freeList s = None \<or>
         (\<exists>as. covers H (memory s) (freeList s) 0 as \<and> no_adjacent_free (memory s) as)"
    by auto
  from invariant_path[OF this] obtain as where
    as: "path (memory s) (freeList s) as" and n: "no_adjacent_free (memory s) as" by blast
  show "\<exists>s' bs. deallocate H s p = Some s' \<and> path (memory s') (freeList s') bs \<and>
         no_adjacent_free (memory s') bs"
  proof (cases p)
    case None
    with as n show ?thesis by (auto simp: deallocate_def)
  next
    case (Some q)
    from deallocate_list[OF as, of H q] show ?thesis unfolding Some by blast
  qed
qed

theorem deallocate_merges_all_witness:
  "path (memory adjacent_free_state) (freeList adjacent_free_state) [0, 144, 1184] \<and>
   (16::int) - 16 \<in> set [0, 144, 1184] \<and>
   \<not> no_adjacent_free (memory adjacent_free_state) [0, 144, 1184] \<and>
   (\<exists>s' bs. deallocate 16 adjacent_free_state (Some 16) = Some s' \<and>
      path (memory s') (freeList s') bs \<and> no_adjacent_free (memory s') bs) \<and>
   path (memory example_state) (freeList example_state) [0, 144, 1184, 5296] \<and>
   (1200::int) - 16 \<in> set [0, 144, 1184, 5296] \<and>
   (0::int) < 16 \<and> 16 \<le> MEMORY_SIZE \<and> freeList fresh = None \<and>
   calls_in_contract 16 fresh [Allocate 128, Allocate 1024, Allocate 4096, Deallocate (Some 160)] \<and>
   run 16 fresh [Allocate 128, Allocate 1024, Allocate 4096, Deallocate (Some 160)] =
     Some example_state \<and>
   in_contract 16 example_state (Some 1200) \<and>
   (\<exists>s' bs. deallocate 16 example_state (Some 1200) = Some s' \<and>
      path (memory s') (freeList s') bs \<and> no_adjacent_free (memory s') bs) \<and>
   in_contract 16 example_state None \<and>
   (\<exists>s' bs. deallocate 16 example_state None = Some s' \<and>
      path (memory s') (freeList s') bs \<and> no_adjacent_free (memory s') bs)"
proof -
  let ?cs = "[Allocate 128, Allocate 1024, Allocate 4096, Deallocate (Some 160)]"
  have h: "(0::int) < 16" "16 \<le> MEMORY_SIZE" "freeList fresh = None"
    by (simp_all add: MEMORY_SIZE_def fresh_def)
  have l: "(16::int) - 16 \<in> set [0, 144, 1184]" by simp
  have n: "\<not> no_adjacent_free (memory adjacent_free_state) [0, 144, 1184]"
    by (simp add: adjacent_free_state_def)
  from main_reaches_example_state have r: "run 16 fresh ?cs = Some example_state"
    and c: "calls_in_contract 16 fresh ?cs" by blast+
  note i = example_state_in_contract in_contract_null[of 16 example_state]
  from deallocate_merges_all[of adjacent_free_state "[0, 144, 1184]" 16 16]
    adjacent_free_state_list l
  have 1: "\<exists>s' bs. deallocate 16 adjacent_free_state (Some 16) = Some s' \<and>
      path (memory s') (freeList s') bs \<and> no_adjacent_free (memory s') bs" by blast
  have l': "(1200::int) - 16 \<in> set [0, 144, 1184, 5296]" by simp
  from deallocate_merges_all[of example_state "[0, 144, 1184, 5296]" 1200 16 fresh ?cs "Some 1200"]
    h r c i(1)
  have 2: "\<exists>s' bs. deallocate 16 example_state (Some 1200) = Some s' \<and>
      path (memory s') (freeList s') bs \<and> no_adjacent_free (memory s') bs" by blast
  from deallocate_merges_all[of example_state "[]" 0 16 fresh ?cs None] h r c i(2)
  have 3: "\<exists>s' bs. deallocate 16 example_state None = Some s' \<and>
      path (memory s') (freeList s') bs \<and> no_adjacent_free (memory s') bs" by blast
  from adjacent_free_state_list l n 1 example_state_list l' h c r i(1) 2 i(2) 3
  show ?thesis by blast
qed

text \<open>
  C5. Round trip. On an arena that is not yet initialised, \<^verbatim>\<open>allocate(n)\<close> with
  \<open>0 < n \<le> MEMORY_SIZE\<close> returns a pointer exactly when \<open>n \<le> MEMORY_SIZE - H\<close>; and
  \<^verbatim>\<open>deallocate\<close> of that pointer leaves the list as initialisation makes it: one free
  block at offset 0 of size \<open>MEMORY_SIZE - H\<close>.
\<close>

theorem round_trip:
  assumes "0 < H" and "H \<le> MEMORY_SIZE" and "freeList s = None"
    and "0 < n" and "n \<le> MEMORY_SIZE"
  shows "(\<exists>s' r. allocate H s n = Some (s', r) \<and> (r \<noteq> None \<longleftrightarrow> n \<le> MEMORY_SIZE - H)) \<and>
         (\<forall>s' r. allocate H s n = Some (s', Some r) \<longrightarrow>
            (\<exists>s''. deallocate H s' (Some r) = Some s'' \<and> freeList s'' = Some 0 \<and>
               memory s'' 0 = \<lparr>size_f = MEMORY_SIZE - H, free_f = 1, next_f = None\<rparr> \<and>
               covers H (memory s'') (freeList s'') 0 [0] \<and>
               (\<forall>x. x \<noteq> r + n \<longrightarrow> memory s'' x = memory (initialize H s) x)))"
proof -
  let ?s1 = "lazy_init H s"
  let ?m1 = "memory ?s1"
  from assms(3) have li: "?s1 = initialize H s" by (simp add: lazy_init_def)
  have fl: "freeList ?s1 = Some 0" unfolding li by (rule initialize_freeList)
  have b0: "?m1 0 = \<lparr>size_f = MEMORY_SIZE - H, free_f = 1, next_f = None\<rparr>"
    unfolding li using assms(1,2) by (simp add: initialize_block)
  from assms(3) have p: "path ?m1 (freeList ?s1) [0]" by (rule path_lazy_init_fresh)
  have fit: "fits ?m1 n 0 \<longleftrightarrow> n \<le> MEMORY_SIZE - H" by (simp add: fits_def b0)
  note al = allocate_path[OF p assms(4,5)]
  have part1: "\<exists>s' r. allocate H s n = Some (s', r) \<and> (r \<noteq> None \<longleftrightarrow> n \<le> MEMORY_SIZE - H)"
    unfolding al using fit by simp
  have part2: "\<exists>s''. deallocate H s' (Some r) = Some s'' \<and> freeList s'' = Some 0 \<and>
               memory s'' 0 = \<lparr>size_f = MEMORY_SIZE - H, free_f = 1, next_f = None\<rparr> \<and>
               covers H (memory s'') (freeList s'') 0 [0] \<and>
               (\<forall>x. x \<noteq> r + n \<longrightarrow> memory s'' x = memory (initialize H s) x)"
    if a: "allocate H s n = Some (s', Some r)" for s' r
  proof -
    from a al fit have ok: "n \<le> MEMORY_SIZE - H" and r: "r = H"
      and s': "s' = ?s1\<lparr>memory := take_block H ?m1 0 n\<rparr>"
      by (auto split: if_splits)
    have pos: "0 < H + n" using assms(1,4) by simp
    show ?thesis
    proof (cases "n + H < MEMORY_SIZE - H")
      case True
      let ?m' = "splitBlock H ?m1 0 n"
      from True have tb: "take_block H ?m1 0 n = ?m'" by (simp add: take_block_def b0)
      from True assms(1,4) have "int32 (MEMORY_SIZE - H - n - H) = MEMORY_SIZE - H - n - H"
        by (intro int32_id) (simp_all add: MEMORY_SIZE_def)
      then have mn: "?m' (H + n) = \<lparr>size_f = MEMORY_SIZE - H - n - H, free_f = 1, next_f = None\<rparr>"
        using splitBlock_new[OF pos, of ?m1 0] by (simp add: b0)
      have m0: "?m' 0 = \<lparr>size_f = n, free_f = 0, next_f = Some (H + n)\<rparr>"
        using splitBlock_chosen[OF pos, of ?m1 0] by simp
      have pth: "path (memory s') (freeList s') [0, H + n]"
        unfolding s' tb using m0 mn fl by simp
      have i32: "int32 (n + (H + (MEMORY_SIZE - H - n - H))) = MEMORY_SIZE - H"
        using assms(1,2) by (simp add: int32_id MEMORY_SIZE_def)
      have hn: "H + n \<noteq> 0" using pos by simp
      show ?thesis
        unfolding deallocate_path[OF pth] r
        using m0 mn fl hn i32 assms(1,2) b0
        by (simp add: s' tb store_simps merge_step_def Let_def splitBlock_other li[symmetric])
    next
      case False
      then have tb: "take_block H ?m1 0 n = set_free ?m1 0 0" by (simp add: take_block_def b0)
      have pth: "path (memory s') (freeList s') [0]"
        unfolding s' tb using b0 fl by (simp add: store_simps)
      show ?thesis
        unfolding deallocate_path[OF pth] r
        using b0 fl assms(1,2)
        by (simp add: s' tb store_simps li[symmetric])
    qed
  qed
  from part1 part2 show ?thesis by blast
qed

theorem round_trip_witness:
  "(0::int) < 16 \<and> 16 \<le> MEMORY_SIZE \<and> freeList fresh = None \<and>
   (0::int) < 100000 \<and> 100000 \<le> MEMORY_SIZE \<and>
   (\<exists>s' r s''. allocate 16 fresh 100000 = Some (s', Some r) \<and>
      deallocate 16 s' (Some r) = Some s'' \<and> freeList s'' = Some 0 \<and>
      memory s'' 0 = \<lparr>size_f = 102384, free_f = 1, next_f = None\<rparr> \<and>
      covers 16 (memory s'') (freeList s'') 0 [0]) \<and>
   (\<exists>s'. allocate 16 fresh 102385 = Some (s', None))"
proof -
  have h: "(0::int) < 16" "16 \<le> MEMORY_SIZE" "freeList fresh = None"
    "(0::int) < 100000" "100000 \<le> MEMORY_SIZE" "(0::int) < 102385" "102385 \<le> MEMORY_SIZE"
    by (simp_all add: MEMORY_SIZE_def fresh_def)
  from round_trip[OF h(1,2,3,4,5)] obtain s' r where
    a: "allocate 16 fresh 100000 = Some (s', Some r)"
    by (auto simp add: MEMORY_SIZE_def)
  with round_trip[OF h(1,2,3,4,5)] obtain s'' where
    "deallocate 16 s' (Some r) = Some s''" "freeList s'' = Some 0"
    "memory s'' 0 = \<lparr>size_f = MEMORY_SIZE - 16, free_f = 1, next_f = None\<rparr>"
    "covers 16 (memory s'') (freeList s'') 0 [0]" by blast
  with a have "\<exists>s' r s''. allocate 16 fresh 100000 = Some (s', Some r) \<and>
      deallocate 16 s' (Some r) = Some s'' \<and> freeList s'' = Some 0 \<and>
      memory s'' 0 = \<lparr>size_f = 102384, free_f = 1, next_f = None\<rparr> \<and>
      covers 16 (memory s'') (freeList s'') 0 [0]"
    unfolding MEMORY_SIZE_def by (intro exI[of _ s'] exI[of _ r] exI[of _ s'']) simp
  moreover from round_trip[OF h(1,2,3,6,7)] have "\<exists>s'. allocate 16 fresh 102385 = Some (s', None)"
    by (auto simp add: MEMORY_SIZE_def)
  ultimately show ?thesis using h by simp
qed

text \<open>
  C6. \<^verbatim>\<open>allocate\<close> reports failure by returning \<^verbatim>\<open>NULL\<close>: always when \<open>size \<le> 0\<close> or
  \<open>size > MEMORY_SIZE\<close>, and, on a list that ends, exactly when moreover no block of the
  list is free and large enough. On such a list the call always returns, so there is no
  other way for it to fail.
\<close>

theorem allocate_none_on_failure:
  "(sz \<le> 0 \<or> MEMORY_SIZE < sz \<longrightarrow> allocate H s sz = Some (s, None)) \<and>
   (path (memory (lazy_init H s)) (freeList (lazy_init H s)) as \<longrightarrow>
      (\<exists>s' r. allocate H s sz = Some (s', r) \<and>
         (r = None \<longleftrightarrow>
            sz \<le> 0 \<or> MEMORY_SIZE < sz \<or> (\<forall>a \<in> set as. \<not> fits (memory (lazy_init H s)) sz a))))"
proof (intro conjI impI)
  assume "sz \<le> 0 \<or> MEMORY_SIZE < sz"
  then show "allocate H s sz = Some (s, None)" by (auto simp: allocate_def)
next
  assume p: "path (memory (lazy_init H s)) (freeList (lazy_init H s)) as"
  show "\<exists>s' r. allocate H s sz = Some (s', r) \<and>
         (r = None \<longleftrightarrow>
            sz \<le> 0 \<or> MEMORY_SIZE < sz \<or> (\<forall>a \<in> set as. \<not> fits (memory (lazy_init H s)) sz a))"
  proof (cases "sz \<le> 0 \<or> MEMORY_SIZE < sz")
    case True
    then show ?thesis by (auto simp: allocate_def)
  next
    case False
    then have v: "0 < sz" "sz \<le> MEMORY_SIZE" by auto
    show ?thesis using False
      by (auto simp add: allocate_path[OF p v] find_None_iff split: option.splits dest: find_SomeD)
  qed
qed

theorem allocate_none_on_failure_witness:
  "allocate 16 example_state 0 = Some (example_state, None) \<and>
   allocate 16 example_state (MEMORY_SIZE + 1) = Some (example_state, None) \<and>
   path (memory (lazy_init 16 example_state)) (freeList (lazy_init 16 example_state)) [0, 144, 1184, 5296] \<and>
   (\<exists>s'. allocate 16 example_state 100000 = Some (s', None)) \<and>
   (\<exists>s' r. allocate 16 example_state 97088 = Some (s', r) \<and> r \<noteq> None)"
  using allocate_none_on_failure[of 0 16 example_state "[]"]
    allocate_none_on_failure[of "MEMORY_SIZE + 1" 16 example_state "[]"]
    allocate_none_on_failure[of 100000 16 example_state "[0, 144, 1184, 5296]"]
    allocate_none_on_failure[of 97088 16 example_state "[0, 144, 1184, 5296]"]
    example_state_path
  by (simp add: example_state_def lazy_init_def fits_def MEMORY_SIZE_def)

text \<open>
  C7. Frame of \<^verbatim>\<open>allocate\<close>. A call that returns the pointer \<open>r\<close> has selected the block
  at \<open>r - H\<close>. Every header other than this one and the one at \<open>r + sz\<close>, where a split
  puts the new block, is what it was before the call; without a split every header other than
  the selected one is.
\<close>

theorem allocate_frame:
  assumes "allocate H s sz = Some (s', Some r)"
  shows "fits (memory (lazy_init H s)) sz (r - H) \<and>
         (\<forall>x. x \<noteq> r - H \<longrightarrow> x \<noteq> r + sz \<longrightarrow> memory s' x = memory s x) \<and>
         (\<not> sz + H < size_f (memory (lazy_init H s) (r - H)) \<longrightarrow>
            (\<forall>x. x \<noteq> r - H \<longrightarrow> memory s' x = memory s x))"
proof -
  let ?s1 = "lazy_init H s"
  let ?a = "r - H"
  from allocate_Some_result[OF assms] have v: "0 < sz" "sz \<le> MEMORY_SIZE"
    and f: "fits (memory ?s1) sz ?a"
    and s': "s' = ?s1\<lparr>memory := take_block H (memory ?s1) ?a sz\<rparr>" by simp_all
  have same: "\<And>x. x \<noteq> ?a \<Longrightarrow> memory ?s1 x = memory s x"
  proof (cases "freeList s = None")
    case False
    then have "?s1 = s" by (auto simp add: lazy_init_def)
    then show "\<And>x. memory ?s1 x = memory s x" by simp
  next
    case True
    then have li: "?s1 = initialize H s" by (simp add: lazy_init_def)
    from True have "path (memory ?s1) (freeList ?s1) [0]" by (rule path_lazy_init_fresh)
    from allocate_path[OF this v] assms have "?a = 0"
      by (auto split: option.splits if_splits)
    then show "\<And>x. x \<noteq> ?a \<Longrightarrow> memory ?s1 x = memory s x"
      unfolding li by (simp add: initialize_other)
  qed
  have "\<And>x. x \<noteq> ?a \<Longrightarrow> x \<noteq> r + sz \<Longrightarrow> memory s' x = memory s x"
    unfolding s' using same by (simp add: take_block_other)
  moreover have "\<And>x. \<not> sz + H < size_f (memory ?s1 ?a) \<Longrightarrow> x \<noteq> ?a \<Longrightarrow> memory s' x = memory s x"
    unfolding s' using same by (simp add: take_block_no_split store_simps)
  ultimately show ?thesis using f by blast
qed

theorem allocate_frame_witness:
  "allocate 16 example_state 512 =
     Some (example_state\<lparr>memory := take_block 16 (memory example_state) 144 512\<rparr>, Some 160) \<and>
   fits (memory (lazy_init 16 example_state)) 512 144 \<and>
   take_block 16 (memory example_state) 144 512 0 = memory example_state 0 \<and>
   take_block 16 (memory example_state) 144 512 1184 = memory example_state 1184 \<and>
   take_block 16 (memory example_state) 144 512 5296 = memory example_state 5296 \<and>
   allocate 16 example_state 1020 =
     Some (example_state\<lparr>memory := take_block 16 (memory example_state) 144 1020\<rparr>, Some 160) \<and>
   \<not> 1020 + 16 < size_f (memory (lazy_init 16 example_state) 144) \<and>
   take_block 16 (memory example_state) 144 1020 1180 = memory example_state 1180"
proof -
  have a: "allocate 16 example_state 512 =
     Some (example_state\<lparr>memory := take_block 16 (memory example_state) 144 512\<rparr>, Some 160)"
    using allocate_path[OF example_state_path, of 512]
    by (simp add: MEMORY_SIZE_def lazy_init_def fits_def example_state_def)
  have b: "allocate 16 example_state 1020 =
     Some (example_state\<lparr>memory := take_block 16 (memory example_state) 144 1020\<rparr>, Some 160)"
    using allocate_path[OF example_state_path, of 1020]
    by (simp add: MEMORY_SIZE_def lazy_init_def fits_def example_state_def)
  have c: "\<not> 1020 + 16 < size_f (memory (lazy_init 16 example_state) 144)"
    by (simp add: lazy_init_def example_state_def)
  from allocate_frame[OF a] allocate_frame[OF b] a b c show ?thesis by simp
qed

text \<open>
  C8. Termination. On a list that is finite and has no cycle, \<^verbatim>\<open>allocate\<close> returns, and
  \<^verbatim>\<open>deallocate\<close> returns when its argument is \<^verbatim>\<open>NULL\<close> or the payload address of a block on
  the list. The merge pass leaves a list that is again finite and not longer than before: a
  merge does not advance the cursor, but it removes one block from the list.
\<close>

theorem operations_terminate:
  assumes "path (memory s) (freeList s) as"
  shows "(\<exists>s' r. allocate H s sz = Some (s', r)) \<and>
         (in_contract H s p \<longrightarrow>
            (\<exists>s' bs. deallocate H s p = Some s' \<and> path (memory s') (freeList s') bs \<and>
               length bs \<le> length as))"
proof (intro conjI impI)
  from assms show "\<exists>s' r. allocate H s sz = Some (s', r)" by (rule allocate_returns)
next
  show "\<exists>s' bs. deallocate H s p = Some s' \<and> path (memory s') (freeList s') bs \<and> length bs \<le> length as"
  proof (cases p)
    case None
    with assms show ?thesis by (auto simp: deallocate_def)
  next
    case (Some q)
    from deallocate_list[OF assms, of H q] show ?thesis unfolding Some by blast
  qed
qed

theorem operations_terminate_witness:
  "path (memory example_state) (freeList example_state) [0, 144, 1184, 5296] \<and>
   (\<exists>s' r. allocate 16 example_state 512 = Some (s', r)) \<and>
   in_contract 16 example_state (Some 1200) \<and>
   (\<exists>s' bs. deallocate 16 example_state (Some 1200) = Some s' \<and>
       path (memory s') (freeList s') bs \<and> length bs \<le> length [0, 144, 1184, 5296 :: int])"
  using operations_terminate[OF example_state_list, of 16 512 "Some 1200"] example_state_list
    example_state_in_contract
  by simp

text \<open>
  C9. \<^verbatim>\<open>deallocate(NULL)\<close> returns at once: the store and \<^verbatim>\<open>freeList\<close> are what they
  were, so no header, no link and not the head of the list has changed.
\<close>

theorem deallocate_null_noop: "deallocate H s None = Some s"
  by (simp add: deallocate_def)

text \<open>
  C10. A request with \<open>size \<le> 0\<close> or \<open>size > MEMORY_SIZE\<close> is refused before the lazy
  initialisation: \<^verbatim>\<open>allocate\<close> returns \<^verbatim>\<open>NULL\<close> and the state is the one it was called in,
  so an arena that was not initialised stays so. The first call with a size in
  \<open>(0, MEMORY_SIZE]\<close> initialises the list to one free block of \<open>MEMORY_SIZE - H\<close> bytes,
  also when this block is too small for the request and the call returns \<^verbatim>\<open>NULL\<close>.
\<close>

theorem invalid_size_before_lazy_init:
  "(sz \<le> 0 \<or> MEMORY_SIZE < sz \<longrightarrow> allocate H s sz = Some (s, None)) \<and>
   (0 < H \<and> H \<le> MEMORY_SIZE \<and> freeList s = None \<and> 0 < sz \<and> sz \<le> MEMORY_SIZE \<longrightarrow>
      (\<exists>s' r. allocate H s sz = Some (s', r) \<and> freeList s' = Some 0) \<and>
      (MEMORY_SIZE - H < sz \<longrightarrow> allocate H s sz = Some (initialize H s, None)) \<and>
      freeList (initialize H s) = Some 0 \<and>
      memory (initialize H s) 0 = \<lparr>size_f = MEMORY_SIZE - H, free_f = 1, next_f = None\<rparr>)"
proof (intro conjI impI)
  assume "sz \<le> 0 \<or> MEMORY_SIZE < sz"
  then show "allocate H s sz = Some (s, None)" by (auto simp: allocate_def)
next
  assume a: "0 < H \<and> H \<le> MEMORY_SIZE \<and> freeList s = None \<and> 0 < sz \<and> sz \<le> MEMORY_SIZE"
  then have li: "lazy_init H s = initialize H s" by (simp add: lazy_init_def)
  from a have "freeList s = None" by simp
  then have p: "path (memory (lazy_init H s)) (freeList (lazy_init H s)) [0]"
    by (rule path_lazy_init_fresh)
  from a have al: "allocate H s sz =
     Some (case find (fits (memory (lazy_init H s)) sz) [0] of
             None \<Rightarrow> (lazy_init H s, None)
           | Some a \<Rightarrow> ((lazy_init H s)\<lparr>memory := take_block H (memory (lazy_init H s)) a sz\<rparr>, Some (a + H)))"
    by (intro allocate_path[OF p]) simp_all
  show "\<exists>s' r. allocate H s sz = Some (s', r) \<and> freeList s' = Some 0"
    unfolding al by (simp add: li initialize_freeList)
  show "freeList (initialize H s) = Some 0" by (rule initialize_freeList)
  from a show b0: "memory (initialize H s) 0 = \<lparr>size_f = MEMORY_SIZE - H, free_f = 1, next_f = None\<rparr>"
    by (simp add: initialize_block)
  assume "MEMORY_SIZE - H < sz"
  then have "\<not> fits (memory (initialize H s)) sz 0"
    by (simp add: fits_def b0)
  then show "allocate H s sz = Some (initialize H s, None)"
    unfolding al by (simp add: li)
qed

theorem invalid_size_before_lazy_init_witness:
  "allocate 16 fresh 0 = Some (fresh, None) \<and>
   allocate 16 fresh 102401 = Some (fresh, None) \<and>
   freeList fresh = None \<and>
   (\<exists>s' r. allocate 16 fresh 128 = Some (s', r) \<and> freeList s' = Some 0) \<and>
   allocate 16 fresh 102400 = Some (initialize 16 fresh, None) \<and>
   freeList (initialize 16 fresh) = Some 0 \<and>
   memory (initialize 16 fresh) 0 = \<lparr>size_f = 102384, free_f = 1, next_f = None\<rparr>"
  using invalid_size_before_lazy_init[of 0 16 fresh]
    invalid_size_before_lazy_init[of 102401 16 fresh]
    invalid_size_before_lazy_init[of 128 16 fresh]
    invalid_size_before_lazy_init[of 102400 16 fresh]
  by (simp add: MEMORY_SIZE_def fresh_def)

end
